theory Spec2Isabelle
  imports Complex_Main "HOL-Library.Sublist" "HOL-Library.Word"
begin

section \<open>Python string primitives used by the chunker\<close>

text \<open>
  Strings are lists of characters; \<open>len\<close> is \<open>length\<close>. Python integers are
  unbounded, so the size arguments of the chunker, annotated \<open>int\<close> in the source,
  are of type \<open>int\<close>. (The call site in \<open>split_large_pages\<close> passes positive floats.
  A length \<open>n\<close> satisfies \<open>n \<le> x\<close> exactly when \<open>n \<le> \<lfloor>x\<rfloor>\<close>, and \<open>n \<ge> x\<close> exactly
  when \<open>n \<ge> \<lceil>x\<rceil>\<close>, so the chunker behaves there as on these two integers.)
\<close>

datatype error = ValueError

text \<open>
  \<open>s.split(sep)\<close> for a non-empty separator: scan from the left, cut at every
  occurrence of \<open>sep\<close>, continue after it. \<open>cur\<close> is the segment read so far.
\<close>

function str_split_go :: "string \<Rightarrow> string \<Rightarrow> string \<Rightarrow> string list" where
  "str_split_go sep cur [] = [cur]"
| "str_split_go sep cur (c # cs) =
     (if sep \<noteq> [] \<and> prefix sep (c # cs)
      then cur # str_split_go sep [] (drop (length sep) (c # cs))
      else str_split_go sep (cur @ [c]) cs)"
  by pat_completeness auto
termination
  by (relation "measure (\<lambda>(sep, cur, s). length s)") auto

text \<open>\<open>s.split(sep)\<close> raises \<open>ValueError\<close> on the empty separator.\<close>

definition str_split :: "string \<Rightarrow> string \<Rightarrow> error + string list" where
  "str_split s sep = (if sep = [] then Inl ValueError else Inr (str_split_go sep [] s))"

text \<open>\<open>sep.join(parts)\<close>.\<close>

fun str_join :: "string \<Rightarrow> string list \<Rightarrow> string" where
  "str_join sep [] = []"
| "str_join sep [x] = x"
| "str_join sep (x # y # ys) = x @ sep @ str_join sep (y # ys)"

text \<open>The slice \<open>s[:-3]\<close>: all but the last three characters, empty when \<open>s\<close> is shorter.\<close>

definition slice_to_minus3 :: "string \<Rightarrow> string" where
  "slice_to_minus3 s = take (length s - 3) s"

section \<open>The chunker: \<open>split_string_by_markers\<close> (module/collect_data.py)\<close>

text \<open>The module constant \<open>marker = '\n##'\<close>.\<close>

definition marker :: string where
  "marker = [CHR 0x0A, CHR ''#'', CHR ''#'']"

text \<open>
  The \<open>for split in splits\<close> loop, with the state \<open>(result, current_part)\<close>
  passed explicitly. The three branches are those of the source, in its order.
\<close>

fun split_loop ::
  "string \<Rightarrow> int \<Rightarrow> int \<Rightarrow> string list \<Rightarrow> string list \<Rightarrow> string \<Rightarrow> string list \<times> string"
where
  "split_loop mark min_part_size max_part_size [] result current_part = (result, current_part)"
| "split_loop mark min_part_size max_part_size (seg # splits) result current_part =
     (if int (length current_part) + int (length seg) + int (length mark) \<le> max_part_size
      then split_loop mark min_part_size max_part_size splits result (current_part @ seg @ mark)
      else if int (length current_part) \<ge> min_part_size
      then split_loop mark min_part_size max_part_size splits
             (result @ [slice_to_minus3 current_part]) []
      else split_loop mark min_part_size max_part_size splits
             (result @ [slice_to_minus3 (current_part @ seg @ mark)]) [])"

definition split_string_by_markers ::
  "string \<Rightarrow> string \<Rightarrow> int \<Rightarrow> int \<Rightarrow> error + string list"
where
  "split_string_by_markers input_string mark min_part_size max_part_size =
     (case str_split input_string mark of
        Inl e \<Rightarrow> Inl e
      | Inr splits \<Rightarrow>
          (case split_loop mark min_part_size max_part_size splits [] [] of
             (result, current_part) \<Rightarrow>
               Inr (if current_part \<noteq> []
                    then result @ [slice_to_minus3 current_part]
                    else result)))"

text \<open>
  The same loop, recording for every part appended to \<open>result\<close> which statement
  appended it (line 117: the accumulator had reached the minimum size; line 122:
  the segment was appended although the maximum was exceeded; line 126: the rest
  after the loop), the accumulator on entry to the branch, the string that was
  sliced, and the part.
\<close>

datatype branch = Flushed | Forced | Final

datatype event =
  Event (via: branch) (acc_before: string) (acc_sliced: string) (part: string)

fun trace_loop ::
  "string \<Rightarrow> int \<Rightarrow> int \<Rightarrow> string list \<Rightarrow> event list \<Rightarrow> string \<Rightarrow> event list \<times> string"
where
  "trace_loop mark min_part_size max_part_size [] evs current_part = (evs, current_part)"
| "trace_loop mark min_part_size max_part_size (seg # splits) evs current_part =
     (if int (length current_part) + int (length seg) + int (length mark) \<le> max_part_size
      then trace_loop mark min_part_size max_part_size splits evs (current_part @ seg @ mark)
      else if int (length current_part) \<ge> min_part_size
      then trace_loop mark min_part_size max_part_size splits
             (evs @ [Event Flushed current_part current_part (slice_to_minus3 current_part)]) []
      else trace_loop mark min_part_size max_part_size splits
             (evs @ [Event Forced current_part (current_part @ seg @ mark)
                       (slice_to_minus3 (current_part @ seg @ mark))]) [])"

definition split_trace :: "string \<Rightarrow> string \<Rightarrow> int \<Rightarrow> int \<Rightarrow> error + event list" where
  "split_trace input_string mark min_part_size max_part_size =
     (case str_split input_string mark of
        Inl e \<Rightarrow> Inl e
      | Inr splits \<Rightarrow>
          (case trace_loop mark min_part_size max_part_size splits [] [] of
             (evs, current_part) \<Rightarrow>
               Inr (if current_part \<noteq> []
                    then evs @ [Event Final current_part current_part
                                  (slice_to_minus3 current_part)]
                    else evs)))"

section \<open>The table splitter: \<open>split_table\<close> (module/collect_data.py)\<close>

text \<open>
  A data frame as \<open>split_table\<close> uses it: the column labels and the data rows, each
  row a list of cells.
\<close>

record table =
  header :: "string list"
  rows :: "string list list"

definition max_rows_per_table :: nat where
  "max_rows_per_table = 30"

text \<open>
  \<open>range(i, stop, step)\<close> for a positive step. (Python raises \<open>ValueError\<close> for
  step 0; the only step used is \<open>max_rows_per_table\<close>.)
\<close>

function py_range :: "nat \<Rightarrow> nat \<Rightarrow> nat \<Rightarrow> nat list" where
  "py_range i stop step =
     (if 0 < step \<and> i < stop then i # py_range (i + step) stop step else [])"
  by pat_completeness auto
termination
  by (relation "measure (\<lambda>(i, stop, step). stop - i)") auto

declare py_range.simps [simp del]

text \<open>
  \<open>chunks\<close> is the list of row slices \<open>table_df[i:i + max_rows_per_table]\<close>; every
  chunk is concatenated below an empty frame that carries the header. (The variable
  \<open>runs\<close> of the source is computed and never read.)
\<close>

definition split_table :: "table \<Rightarrow> table list" where
  "split_table table_df =
     (let hdr = header table_df;
          chunks = map (\<lambda>i. take max_rows_per_table (drop i (rows table_df)))
                     (py_range 0 (length (rows table_df)) max_rows_per_table)
      in map (\<lambda>chunk. \<lparr>header = hdr, rows = chunk\<rparr>) chunks)"

section \<open>The context assembler: \<open>get_context\<close> (app.py)\<close>

text \<open>
  A row of \<open>pages_df\<close> with the columns \<open>get_context\<close> reads. The frame arrives from
  \<open>sort_documents\<close> with its index reset, so \<open>pages_df.loc[i]\<close> is the \<open>i\<close>-th row.
  \<open>read_csv\<close> loads the column \<open>num_tokens\<close> as 64-bit integers, and \<open>page.num_tokens\<close>
  is a \<open>numpy.int64\<close>: its sums wrap around, and comparisons read it as a signed
  value (\<open>sint\<close>).
\<close>

record page =
  space :: string
  title :: string
  page_content :: string
  link :: string
  num_tokens :: "64 word"

definition max_tokens_per_context :: int where
  "max_tokens_per_context = 3490"

definition context_message :: string where
  "context_message = ''Informationen und Anleitungen aus dem Wiki: \<newline>''"

text \<open>
  The loop over the rows with the state \<open>(chosen_pages_content, sum_tokens_chosen)\<close>;
  \<open>break\<close> returns the state as it is. \<open>sum_tokens_chosen\<close> starts as the Python
  integer 0 and is a \<open>numpy.int64\<close> from the first addition on, so it is a 64-bit
  word throughout. The lines printed for the user are left out: they change no
  variable.
\<close>

fun get_context_loop :: "page list \<Rightarrow> string list \<Rightarrow> 64 word \<Rightarrow> string list \<times> 64 word" where
  "get_context_loop [] chosen_pages_content sum_tokens_chosen =
     (chosen_pages_content, sum_tokens_chosen)"
| "get_context_loop (page # pages) chosen_pages_content sum_tokens_chosen =
     (if sint (sum_tokens_chosen + num_tokens page) > max_tokens_per_context
      then (chosen_pages_content, sum_tokens_chosen)
      else get_context_loop pages (chosen_pages_content @ [page_content page])
             (sum_tokens_chosen + num_tokens page + 4))"

definition get_context :: "string \<Rightarrow> page list \<Rightarrow> string" where
  "get_context query pages_df =
     context_message @ str_join ''\<newline>\<newline>'' (fst (get_context_loop pages_df [] 0))"

section \<open>The conversation memory (app.py)\<close>

record message =
  role :: string
  content :: string

definition max_messages_to_keep :: nat where
  "max_messages_to_keep = 3"

text \<open>
  The text of the system message is a module constant with characters outside
  ASCII; no operation reads it, so it is an argument here.
\<close>

definition initialize_memory :: "string \<Rightarrow> message list" where
  "initialize_memory system_message = [\<lparr>role = ''system'', content = system_message\<rparr>]"

text \<open>\<open>del memory[1:4]\<close>: a slice deletion removes the positions that exist.\<close>

definition del_1_4 :: "'a list \<Rightarrow> 'a list" where
  "del_1_4 xs = take 1 xs @ drop 4 xs"

text \<open>The list is mutated in place and returned; the model returns the new list.\<close>

definition contruct_prompt :: "string \<Rightarrow> message list \<Rightarrow> string \<Rightarrow> message list" where
  "contruct_prompt query memory context =
     (let memory1 = memory @ [\<lparr>role = ''assistant'', content = context\<rparr>];
          memory2 = memory1 @ [\<lparr>role = ''user'', content = query\<rparr>]
      in if length memory2 > max_messages_to_keep then del_1_4 memory2 else memory2)"

text \<open>
  The last statement of the loop body of \<open>run_chatbot\<close>:
  \<open>memory.append({"role": "assistant", "content": answer})\<close>.
\<close>

definition append_answer :: "message list \<Rightarrow> string \<Rightarrow> message list" where
  "append_answer memory answer = memory @ [\<lparr>role = ''assistant'', content = answer\<rparr>]"

text \<open>
  The two operations on the memory as data, and a run of them. \<open>AppendTurn context query\<close>
  is the call of \<open>contruct_prompt\<close> inside \<open>ask\<close>.
\<close>

datatype memory_op = AppendTurn string string | AppendAnswer string

fun apply_op :: "message list \<Rightarrow> memory_op \<Rightarrow> message list" where
  "apply_op memory (AppendTurn context query) = contruct_prompt query memory context"
| "apply_op memory (AppendAnswer answer) = append_answer memory answer"

definition run_ops :: "message list \<Rightarrow> memory_op list \<Rightarrow> message list" where
  "run_ops memory ops = foldl apply_op memory ops"

text \<open>
  The order in which \<open>run_chatbot\<close> issues the operations: every iteration calls
  \<open>ask\<close> (one \<open>AppendTurn\<close>) and then appends the answer. A run may stop after
  \<open>ask\<close>, before the answer is appended.
\<close>

fun alternating :: "memory_op list \<Rightarrow> bool" where
  "alternating [] = True"
| "alternating [AppendTurn context query] = True"
| "alternating (AppendTurn context query # AppendAnswer answer # ops) = alternating ops"
| "alternating ops = False"

section \<open>Properties of the chunker\<close>

lemma trace_loop_refines:
  "trace_loop mark mn mx splits evs cur = (evs', cur') \<Longrightarrow>
   split_loop mark mn mx splits (map part evs) cur = (map part evs', cur')"
proof (induction splits arbitrary: evs cur)
  case Nil
  then show ?case by simp
next
  case (Cons seg splits)
  show ?case
  proof (cases "int (length cur) + int (length seg) + int (length mark) \<le> mx")
    case True
    with Cons.prems Cons.IH [of evs "cur @ seg @ mark"] show ?thesis by simp
  next
    case False
    show ?thesis
    proof (cases "mn \<le> int (length cur)")
      case True
      with False Cons.prems
        Cons.IH [of "evs @ [Event Flushed cur cur (slice_to_minus3 cur)]" "[]"]
      show ?thesis by simp
    next
      case nomin: False
      with False Cons.prems
        Cons.IH [of "evs @ [Event Forced cur (cur @ seg @ mark)
                              (slice_to_minus3 (cur @ seg @ mark))]" "[]"]
      show ?thesis by simp
    qed
  qed
qed

lemma split_trace_parts:
  "split_string_by_markers s mark mn mx = map_sum id (map part) (split_trace s mark mn mx)"
proof (cases "str_split s mark")
  case (Inl e)
  then show ?thesis by (simp add: split_string_by_markers_def split_trace_def)
next
  case (Inr splits)
  obtain evs cur where t: "trace_loop mark mn mx splits [] [] = (evs, cur)"
    by (cases "trace_loop mark mn mx splits [] []")
  from trace_loop_refines [OF t] have "split_loop mark mn mx splits [] [] = (map part evs, cur)"
    by simp
  with Inr t show ?thesis
    by (simp add: split_string_by_markers_def split_trace_def)
qed

lemma length_slice_to_minus3: "length (slice_to_minus3 s) = length s - 3"
  by (simp add: slice_to_minus3_def)

lemma slice_to_minus3_strip: "length mark = 3 \<Longrightarrow> slice_to_minus3 (pre @ mark) = pre"
  by (simp add: slice_to_minus3_def)

text \<open>
  An invariant \<open>I\<close> of the accumulator and a property \<open>Q\<close> of the recorded events
  carry through the loop when every branch keeps them.
\<close>

lemma trace_loop_invariant:
  assumes append: "\<And>cur (seg :: string). I cur \<Longrightarrow>
            int (length cur) + int (length seg) + int (length mark) \<le> mx \<Longrightarrow> I (cur @ seg @ mark)"
    and empty: "I []"
    and flushed: "\<And>cur (seg :: string). I cur \<Longrightarrow>
            \<not> int (length cur) + int (length seg) + int (length mark) \<le> mx \<Longrightarrow>
            mn \<le> int (length cur) \<Longrightarrow> Q (Event Flushed cur cur (slice_to_minus3 cur))"
    and forced: "\<And>cur (seg :: string). I cur \<Longrightarrow>
            \<not> int (length cur) + int (length seg) + int (length mark) \<le> mx \<Longrightarrow>
            \<not> mn \<le> int (length cur) \<Longrightarrow>
            Q (Event Forced cur (cur @ seg @ mark) (slice_to_minus3 (cur @ seg @ mark)))"
  shows "I cur \<Longrightarrow> \<forall>e \<in> set evs. Q e \<Longrightarrow>
         trace_loop mark mn mx splits evs cur = (evs', cur') \<Longrightarrow>
         I cur' \<and> (\<forall>e \<in> set evs'. Q e)"
proof (induction splits arbitrary: evs cur)
  case Nil
  then show ?case by simp
next
  case (Cons seg splits)
  show ?case
  proof (cases "int (length cur) + int (length seg) + int (length mark) \<le> mx")
    case True
    with Cons.prems have "trace_loop mark mn mx splits evs (cur @ seg @ mark) = (evs', cur')"
      by simp
    with Cons.IH [of "cur @ seg @ mark" evs] append [OF Cons.prems(1) True] Cons.prems(2)
    show ?thesis by blast
  next
    case over: False
    show ?thesis
    proof (cases "mn \<le> int (length cur)")
      case True
      let ?e = "Event Flushed cur cur (slice_to_minus3 cur)"
      from over True Cons.prems have "trace_loop mark mn mx splits (evs @ [?e]) [] = (evs', cur')"
        by simp
      moreover from flushed [OF Cons.prems(1) over True] Cons.prems(2)
      have "\<forall>e \<in> set (evs @ [?e]). Q e" by simp
      ultimately show ?thesis using Cons.IH [of "[]" "evs @ [?e]"] empty by blast
    next
      case False
      let ?e = "Event Forced cur (cur @ seg @ mark) (slice_to_minus3 (cur @ seg @ mark))"
      from over False Cons.prems have "trace_loop mark mn mx splits (evs @ [?e]) [] = (evs', cur')"
        by simp
      moreover from forced [OF Cons.prems(1) over False] Cons.prems(2)
      have "\<forall>e \<in> set (evs @ [?e]). Q e" by simp
      ultimately show ?thesis using Cons.IH [of "[]" "evs @ [?e]"] empty by blast
    qed
  qed
qed

lemma split_trace_invariant:
  assumes append: "\<And>cur (seg :: string). I cur \<Longrightarrow>
            int (length cur) + int (length seg) + int (length mark) \<le> mx \<Longrightarrow> I (cur @ seg @ mark)"
    and empty: "I []"
    and flushed: "\<And>cur (seg :: string). I cur \<Longrightarrow>
            \<not> int (length cur) + int (length seg) + int (length mark) \<le> mx \<Longrightarrow>
            mn \<le> int (length cur) \<Longrightarrow> Q (Event Flushed cur cur (slice_to_minus3 cur))"
    and forced: "\<And>cur (seg :: string). I cur \<Longrightarrow>
            \<not> int (length cur) + int (length seg) + int (length mark) \<le> mx \<Longrightarrow>
            \<not> mn \<le> int (length cur) \<Longrightarrow>
            Q (Event Forced cur (cur @ seg @ mark) (slice_to_minus3 (cur @ seg @ mark)))"
    and final: "\<And>cur. I cur \<Longrightarrow> cur \<noteq> [] \<Longrightarrow> Q (Event Final cur cur (slice_to_minus3 cur))"
    and run: "split_trace s mark mn mx = Inr evs"
  shows "\<forall>e \<in> set evs. Q e"
proof -
  from run obtain splits where sp: "str_split s mark = Inr splits"
    by (cases "str_split s mark") (simp_all add: split_trace_def)
  obtain evs0 cur where t: "trace_loop mark mn mx splits [] [] = (evs0, cur)"
    by (cases "trace_loop mark mn mx splits [] []")
  have "I cur \<and> (\<forall>e \<in> set evs0. Q e)"
    by (rule trace_loop_invariant [where I = I and Q = Q, OF append empty flushed forced empty _ t])
       simp_all
  moreover from run sp t have
    "evs = (if cur \<noteq> [] then evs0 @ [Event Final cur cur (slice_to_minus3 cur)] else evs0)"
    by (simp add: split_trace_def)
  ultimately show ?thesis using final by auto
qed

lemma split_trace_Inr_parts:
  "split_trace s mark mn mx = Inr evs \<Longrightarrow> split_string_by_markers s mark mn mx = Inr (map part evs)"
  by (simp add: split_trace_parts)

text \<open>
  Evaluation of the chunker on a concrete input unfolds these definitions.
\<close>

lemmas chunk_eval = split_string_by_markers_def split_trace_def str_split_def marker_def
  slice_to_minus3_def

subsection \<open>The segment that triggers a flush\<close>

text \<open>
  Claim C2 says that the segment which triggers a flush at line 117 (the accumulator
  has reached the minimum size and the segment does not fit) is not lost and starts
  the next part. The code resets the accumulator and the loop goes on to the next
  segment. In the scenario of the specification (marker \<open>\n##\<close>, minimum 10,
  maximum 30) the segment of 25 characters \<open>d\<close> triggers the flush of \<open>a\n##b\n##c\<close>
  and is in no part: the next part is \<open>e\<close>.
\<close>

theorem flush_drops_segment:
  "split_string_by_markers ''a\<newline>##b\<newline>##c\<newline>##ddddddddddddddddddddddddd\<newline>##e'' marker 10 30
     = Inr [''a\<newline>##b\<newline>##c'', ''e''] \<and>
   split_trace ''a\<newline>##b\<newline>##c\<newline>##ddddddddddddddddddddddddd\<newline>##e'' marker 10 30
     = Inr [Event Flushed ''a\<newline>##b\<newline>##c\<newline>##'' ''a\<newline>##b\<newline>##c\<newline>##'' ''a\<newline>##b\<newline>##c'',
            Event Final ''e\<newline>##'' ''e\<newline>##'' ''e''] \<and>
   CHR ''d'' \<notin> set (concat [''a\<newline>##b\<newline>##c'', ''e''])"
  by (simp add: chunk_eval)

subsection \<open>The size bound\<close>

text \<open>
  Claim C3, as stated, bounds every part not produced by the forced-append branch by
  \<open>max_part_size\<close> for every input. Both sizes are Python integers: with a negative
  maximum and a minimum of 0 the first segment flushes the empty accumulator at line 117,
  and the empty part is longer than the maximum.
\<close>

theorem parts_within_max_counterexample:
  "split_trace ''a'' marker 0 (- 1) = Inr [Event Flushed [] [] []] \<and>
   split_string_by_markers ''a'' marker 0 (- 1) = Inr [[]] \<and>
   \<not> int (length ([] :: string)) \<le> - 1"
  by (simp add: chunk_eval)

text \<open>
  Claim C3, amended. For every input with \<open>max_part_size \<ge> 0\<close> on which the chunker
  returns, the returned parts are the parts of the recorded events, and every part
  that was not produced by the forced-append branch has at most \<open>max_part_size\<close>
  characters.
\<close>

theorem parts_within_max:
  assumes "0 \<le> max_part_size"
    and "split_trace input_string mark min_part_size max_part_size = Inr evs"
  shows "split_string_by_markers input_string mark min_part_size max_part_size = Inr (map part evs) \<and>
         (\<forall>e \<in> set evs. via e \<noteq> Forced \<longrightarrow> int (length (part e)) \<le> max_part_size)"
proof -
  have "\<forall>e \<in> set evs. via e \<noteq> Forced \<longrightarrow> int (length (part e)) \<le> max_part_size"
    by (rule split_trace_invariant [where I = "\<lambda>cur. int (length cur) \<le> max_part_size", OF _ _ _ _ _ assms(2)])
       (use assms(1) in \<open>simp_all add: length_slice_to_minus3\<close>)
  with split_trace_Inr_parts [OF assms(2)] show ?thesis by simp
qed

text \<open>
  A run with a flush, a forced append and a rest: the flushed part and the rest are
  within the maximum of 11.
\<close>

theorem parts_within_max_witness:
  "(0 :: int) \<le> 11 \<and>
   split_trace ''intro\<newline>##one\<newline>##two words\<newline>##three'' marker 4 11
     = Inr [Event Flushed ''intro\<newline>##'' ''intro\<newline>##'' ''intro'',
            Event Forced [] ''two words\<newline>##'' ''two words'',
            Event Final ''three\<newline>##'' ''three\<newline>##'' ''three''] \<and>
   split_string_by_markers ''intro\<newline>##one\<newline>##two words\<newline>##three'' marker 4 11
     = Inr [''intro'', ''two words'', ''three''] \<and>
   int (length ''intro'') \<le> 11 \<and> int (length ''three'') \<le> 11"
proof -
  have run: "split_trace ''intro\<newline>##one\<newline>##two words\<newline>##three'' marker 4 11
     = Inr [Event Flushed ''intro\<newline>##'' ''intro\<newline>##'' ''intro'',
            Event Forced [] ''two words\<newline>##'' ''two words'',
            Event Final ''three\<newline>##'' ''three\<newline>##'' ''three'']"
    by (simp add: chunk_eval)
  from parts_within_max [OF _ run] run show ?thesis by simp
qed

subsection \<open>The forced-append branch\<close>

text \<open>
  Claim C4, as stated, lets only forced-append parts exceed \<open>max_part_size\<close>, and
  those only after an accumulator below \<open>min_part_size\<close>. With a maximum of -5 and a
  minimum of -2 the empty part flushed at line 117 exceeds the maximum, is not a
  forced-append part, and its accumulator was not below the minimum.
\<close>

theorem forced_append_counterexample:
  "split_trace ''xy'' marker (- 2) (- 5) = Inr [Event Flushed [] [] []] \<and>
   split_string_by_markers ''xy'' marker (- 2) (- 5) = Inr [[]] \<and>
   - 5 < int (length ([] :: string)) \<and>
   via (Event Flushed [] [] []) \<noteq> Forced \<and>
   \<not> int (length ([] :: string)) < - 2"
  by (simp add: chunk_eval)

text \<open>
  Claim C4, amended. When the next segment does not fit and the accumulator is
  shorter than \<open>min_part_size\<close>, the loop appends the segment and the marker, adds the
  sliced result to the parts and goes on with the empty accumulator. For
  \<open>max_part_size \<ge> 0\<close>, a returned part longer than \<open>max_part_size\<close> was produced by
  that branch; and every part produced by it comes from an accumulator that was
  shorter than \<open>min_part_size\<close>, extended by the segment and the marker to more than
  \<open>max_part_size\<close> characters.
\<close>

theorem forced_append_step_and_bound:
  "(\<not> int (length current_part) + int (length seg) + int (length mark) \<le> max_part_size \<and>
    int (length current_part) < min_part_size \<longrightarrow>
      split_loop mark min_part_size max_part_size (seg # splits) result current_part
        = split_loop mark min_part_size max_part_size splits
            (result @ [slice_to_minus3 (current_part @ seg @ mark)]) []) \<and>
   (0 \<le> max_part_size \<and>
    split_trace input_string mark min_part_size max_part_size = Inr evs \<longrightarrow>
      split_string_by_markers input_string mark min_part_size max_part_size
        = Inr (map part evs) \<and>
      (\<forall>e \<in> set evs.
         (max_part_size < int (length (part e)) \<longrightarrow> via e = Forced) \<and>
         (via e = Forced \<longrightarrow>
            int (length (acc_before e)) < min_part_size \<and>
            max_part_size < int (length (acc_sliced e)) \<and>
            (\<exists>s. acc_sliced e = acc_before e @ s @ mark) \<and>
            part e = slice_to_minus3 (acc_sliced e))))"
proof -
  have step: "split_loop mark min_part_size max_part_size (seg # splits) result current_part
        = split_loop mark min_part_size max_part_size splits
            (result @ [slice_to_minus3 (current_part @ seg @ mark)]) []"
    if "\<not> int (length current_part) + int (length seg) + int (length mark) \<le> max_part_size"
      and "int (length current_part) < min_part_size"
    using that by simp
  have bound: "\<forall>e \<in> set evs.
         (max_part_size < int (length (part e)) \<longrightarrow> via e = Forced) \<and>
         (via e = Forced \<longrightarrow>
            int (length (acc_before e)) < min_part_size \<and>
            max_part_size < int (length (acc_sliced e)) \<and>
            (\<exists>s. acc_sliced e = acc_before e @ s @ mark) \<and>
            part e = slice_to_minus3 (acc_sliced e))"
    if nonneg: "0 \<le> max_part_size"
      and run: "split_trace input_string mark min_part_size max_part_size = Inr evs"
    by (rule split_trace_invariant
          [where I = "\<lambda>cur. int (length cur) \<le> max_part_size", OF _ _ _ _ _ run])
       (use nonneg in \<open>auto simp: length_slice_to_minus3\<close>)
  from step bound split_trace_Inr_parts [of input_string mark min_part_size max_part_size evs]
  show ?thesis by blast
qed

text \<open>
  The accumulator \<open>aa\n##\<close> (5 characters, minimum 6) takes the segment of ten
  \<open>b\<close>: the part has 15 characters, the maximum is 5.
\<close>

theorem forced_append_step_and_bound_witness:
  "split_loop marker 6 5 [''bbbbbbbbbb'', ''c''] [] ''aa\<newline>##''
     = split_loop marker 6 5 [''c''] [''aa\<newline>##bbbbbbbbbb''] [] \<and>
   split_trace ''aa\<newline>##bbbbbbbbbb\<newline>##c'' marker 6 5
     = Inr [Event Forced ''aa\<newline>##'' ''aa\<newline>##bbbbbbbbbb\<newline>##'' ''aa\<newline>##bbbbbbbbbb'',
            Event Final ''c\<newline>##'' ''c\<newline>##'' ''c''] \<and>
   split_string_by_markers ''aa\<newline>##bbbbbbbbbb\<newline>##c'' marker 6 5
     = Inr [''aa\<newline>##bbbbbbbbbb'', ''c''] \<and>
   (5 :: int) < int (length ''aa\<newline>##bbbbbbbbbb'') \<and>
   int (length ''aa\<newline>##'') < 6"
proof -
  have run: "split_trace ''aa\<newline>##bbbbbbbbbb\<newline>##c'' marker 6 5
     = Inr [Event Forced ''aa\<newline>##'' ''aa\<newline>##bbbbbbbbbb\<newline>##'' ''aa\<newline>##bbbbbbbbbb'',
            Event Final ''c\<newline>##'' ''c\<newline>##'' ''c'']"
    by (simp add: chunk_eval)
  from forced_append_step_and_bound [where current_part = "''aa\<newline>##''" and seg = "''bbbbbbbbbb''"
      and mark = marker and max_part_size = 5 and min_part_size = 6 and splits = "[''c'']"
      and result = "[]" and input_string = "''aa\<newline>##bbbbbbbbbb\<newline>##c''"
      and evs = "[Event Forced ''aa\<newline>##'' ''aa\<newline>##bbbbbbbbbb\<newline>##'' ''aa\<newline>##bbbbbbbbbb'',
            Event Final ''c\<newline>##'' ''c\<newline>##'' ''c'']"] run
  show ?thesis by (simp add: marker_def slice_to_minus3_def)
qed

subsection \<open>The slice \<open>[:-3]\<close>\<close>

lemma slice_to_minus3_iff:
  assumes "suffix mark acc" and "3 \<le> length acc"
  shows "slice_to_minus3 acc @ mark = acc \<longleftrightarrow> length mark = 3"
proof
  assume "slice_to_minus3 acc @ mark = acc"
  then have "length (slice_to_minus3 acc) + length mark = length acc"
    by (metis length_append)
  with assms(2) show "length mark = 3" by (simp add: length_slice_to_minus3)
next
  assume three: "length mark = 3"
  from assms(1) obtain pre where "acc = pre @ mark" by (auto simp: suffix_def)
  with three show "slice_to_minus3 acc @ mark = acc"
    by (simp add: slice_to_minus3_strip)
qed

text \<open>
  Claim C10, as stated, has every flush remove exactly three characters, and the
  part equal to the accumulator without its marker only for a marker of three
  characters. With the marker \<open>#\<close> and the empty text the accumulator is \<open>#\<close>: the
  slice removes its one character, and the part is the accumulator without its
  marker although the marker has one character.
\<close>

theorem flush_slices_three_counterexample:
  "split_trace [] ''#'' 0 10 = Inr [Event Final ''#'' ''#'' []] \<and>
   split_string_by_markers [] ''#'' 0 10 = Inr [[]] \<and>
   [] @ ''#'' = ''#'' \<and>
   length ''#'' \<noteq> 3 \<and>
   length ''#'' - length ([] :: string) \<noteq> 3"
  by (simp add: chunk_eval)

text \<open>
  Claim C10, amended. Whatever the marker, every part is the sliced string without
  its last three characters (empty when the string is shorter), and a sliced string
  that is not empty ends with the marker. When the sliced string has at least three
  characters, exactly three are removed, and the part is that string without its
  trailing marker if and only if the marker has exactly three characters.
\<close>

theorem flush_slices_three:
  assumes run: "split_trace input_string mark min_part_size max_part_size = Inr evs"
  shows "split_string_by_markers input_string mark min_part_size max_part_size
           = Inr (map part evs) \<and>
         (\<forall>e \<in> set evs.
            part e = take (length (acc_sliced e) - 3) (acc_sliced e) \<and>
            (acc_sliced e \<noteq> [] \<longrightarrow> suffix mark (acc_sliced e)) \<and>
            (3 \<le> length (acc_sliced e) \<longrightarrow>
               length (part e) + 3 = length (acc_sliced e) \<and>
               (part e @ mark = acc_sliced e \<longleftrightarrow> length mark = 3)))"
proof -
  let ?Q = "\<lambda>e. part e = slice_to_minus3 (acc_sliced e) \<and>
                 (acc_sliced e \<noteq> [] \<longrightarrow> suffix mark (acc_sliced e))"
  have q: "\<forall>e \<in> set evs. ?Q e"
    by (rule split_trace_invariant
          [where I = "\<lambda>cur. cur = [] \<or> suffix mark cur" and Q = ?Q, OF _ _ _ _ _ run])
       (auto simp: suffix_def)
  have "part e = take (length (acc_sliced e) - 3) (acc_sliced e) \<and>
            (acc_sliced e \<noteq> [] \<longrightarrow> suffix mark (acc_sliced e)) \<and>
            (3 \<le> length (acc_sliced e) \<longrightarrow>
               length (part e) + 3 = length (acc_sliced e) \<and>
               (part e @ mark = acc_sliced e \<longleftrightarrow> length mark = 3))" if "e \<in> set evs" for e
  proof -
    from q that have p: "part e = slice_to_minus3 (acc_sliced e)"
      and s: "acc_sliced e \<noteq> [] \<longrightarrow> suffix mark (acc_sliced e)" by auto
    have "length (part e) + 3 = length (acc_sliced e) \<and>
          (part e @ mark = acc_sliced e \<longleftrightarrow> length mark = 3)" if three: "3 \<le> length (acc_sliced e)"
    proof -
      from three have "acc_sliced e \<noteq> []" by auto
      with s have "suffix mark (acc_sliced e)" by simp
      from slice_to_minus3_iff [OF this three] three show ?thesis
        by (simp add: p length_slice_to_minus3)
    qed
    with p s show ?thesis by (simp add: slice_to_minus3_def)
  qed
  with split_trace_Inr_parts [OF run] show ?thesis by blast
qed

text \<open>
  With the marker \<open>##\<close> the slice takes one character of the last segment with it.
\<close>

theorem flush_slices_three_witness:
  "split_trace ''ab##cd'' ''##'' 0 100 = Inr [Event Final ''ab##cd##'' ''ab##cd##'' ''ab##c''] \<and>
   split_string_by_markers ''ab##cd'' ''##'' 0 100 = Inr [''ab##c''] \<and>
   ''ab##c'' = take (length ''ab##cd##'' - 3) ''ab##cd##'' \<and>
   3 \<le> length ''ab##cd##'' \<and>
   ''ab##c'' @ ''##'' \<noteq> ''ab##cd##'' \<and>
   length ''##'' \<noteq> 3"
proof -
  have run: "split_trace ''ab##cd'' ''##'' 0 100
               = Inr [Event Final ''ab##cd##'' ''ab##cd##'' ''ab##c'']"
    by (simp add: chunk_eval)
  from flush_slices_three [OF run] run show ?thesis by simp
qed

subsection \<open>Joining the parts\<close>

text \<open>
  Claim C1 says that the returned parts, joined by the marker, give back the input
  text, and that no segment of the input is lost. In the scenario of the
  specification (marker \<open>\n##\<close>, minimum 10, maximum 30) the parts join to
  \<open>a\n##b\n##c\n##e\<close>: the segment of 25 characters \<open>d\<close> is missing. It is the segment
  dropped by the flush at lines 117 and 118, the defect of C2.
\<close>

theorem join_parts_loses_segment:
  "split_string_by_markers ''a\<newline>##b\<newline>##c\<newline>##ddddddddddddddddddddddddd\<newline>##e'' marker 10 30
     = Inr [''a\<newline>##b\<newline>##c'', ''e''] \<and>
   str_join marker [''a\<newline>##b\<newline>##c'', ''e''] = ''a\<newline>##b\<newline>##c\<newline>##e'' \<and>
   str_join marker [''a\<newline>##b\<newline>##c'', ''e'']
     \<noteq> ''a\<newline>##b\<newline>##c\<newline>##ddddddddddddddddddddddddd\<newline>##e''"
  by (simp add: chunk_eval)

section \<open>Properties of the conversation memory\<close>

lemma del_1_4_length: "4 \<le> length xs \<Longrightarrow> length (del_1_4 xs) = length xs - 3"
  by (simp add: del_1_4_def)

lemma del_1_4_nth0: "xs \<noteq> [] \<Longrightarrow> del_1_4 xs ! 0 = xs ! 0"
  by (cases xs) (simp_all add: del_1_4_def)

lemma del_1_4_nth:
  "4 \<le> length xs \<Longrightarrow> 1 \<le> i \<Longrightarrow> i < length xs - 3 \<Longrightarrow> del_1_4 xs ! i = xs ! (i + 3)"
  by (simp add: del_1_4_def nth_append add.commute)

text \<open>
  Claim C7. For every memory, \<open>contruct_prompt\<close> appends the context message (role
  assistant) and then the query (role user) at the tail. When the list so obtained is
  longer than \<open>max_messages_to_keep\<close>, the result is that list without its positions
  1, 2 and 3: it is three entries shorter, position 0 is the same, and every later
  position \<open>i\<close> holds what stood at \<open>i + 3\<close>. Otherwise the result is the appended list.
\<close>

theorem contruct_prompt_appends_and_evicts:
  "let appended = memory @ [\<lparr>role = ''assistant'', content = context\<rparr>,
                            \<lparr>role = ''user'', content = query\<rparr>];
       memory' = contruct_prompt query memory context
   in (length appended \<le> max_messages_to_keep \<longrightarrow> memory' = appended) \<and>
      (max_messages_to_keep < length appended \<longrightarrow>
         length memory' = length appended - 3 \<and>
         memory' ! 0 = appended ! 0 \<and>
         (\<forall>i. 1 \<le> i \<and> i < length appended - 3 \<longrightarrow> memory' ! i = appended ! (i + 3)))"
proof -
  define appended where
    "appended = memory @ [\<lparr>role = ''assistant'', content = context\<rparr>,
                          \<lparr>role = ''user'', content = query\<rparr>]"
  have eq: "contruct_prompt query memory context =
              (if max_messages_to_keep < length appended then del_1_4 appended else appended)"
    by (simp add: contruct_prompt_def appended_def Let_def)
  have "(length appended \<le> max_messages_to_keep \<longrightarrow>
            contruct_prompt query memory context = appended) \<and>
        (max_messages_to_keep < length appended \<longrightarrow>
            length (contruct_prompt query memory context) = length appended - 3 \<and>
            contruct_prompt query memory context ! 0 = appended ! 0 \<and>
            (\<forall>i. 1 \<le> i \<and> i < length appended - 3 \<longrightarrow>
                 contruct_prompt query memory context ! i = appended ! (i + 3)))"
  proof (cases "max_messages_to_keep < length appended")
    case False
    with eq show ?thesis by simp
  next
    case True
    then have len: "4 \<le> length appended" by (simp add: max_messages_to_keep_def)
    then have ne: "appended \<noteq> []" by auto
    from True eq have r: "contruct_prompt query memory context = del_1_4 appended" by simp
    show ?thesis
      using True len ne by (simp add: r del_1_4_length del_1_4_nth0 del_1_4_nth)
  qed
  then show ?thesis
    unfolding appended_def Let_def .
qed

text \<open>
  The second turn of a session: the memory holds system message, context, query and
  answer; the new turn makes six entries, and the three after the system message go.
\<close>

theorem contruct_prompt_appends_and_evicts_witness:
  "contruct_prompt ''q2''
     [\<lparr>role = ''system'', content = ''s''\<rparr>, \<lparr>role = ''assistant'', content = ''c1''\<rparr>,
      \<lparr>role = ''user'', content = ''q1''\<rparr>, \<lparr>role = ''assistant'', content = ''a1''\<rparr>] ''c2'' ! 0
   = \<lparr>role = ''system'', content = ''s''\<rparr> \<and>
   contruct_prompt ''q2''
     [\<lparr>role = ''system'', content = ''s''\<rparr>, \<lparr>role = ''assistant'', content = ''c1''\<rparr>,
      \<lparr>role = ''user'', content = ''q1''\<rparr>, \<lparr>role = ''assistant'', content = ''a1''\<rparr>] ''c2'' ! 1
   = \<lparr>role = ''assistant'', content = ''c2''\<rparr> \<and>
   contruct_prompt ''q2''
     [\<lparr>role = ''system'', content = ''s''\<rparr>, \<lparr>role = ''assistant'', content = ''c1''\<rparr>,
      \<lparr>role = ''user'', content = ''q1''\<rparr>, \<lparr>role = ''assistant'', content = ''a1''\<rparr>] ''c2'' ! 2
   = \<lparr>role = ''user'', content = ''q2''\<rparr> \<and>
   length (contruct_prompt ''q2''
     [\<lparr>role = ''system'', content = ''s''\<rparr>, \<lparr>role = ''assistant'', content = ''c1''\<rparr>,
      \<lparr>role = ''user'', content = ''q1''\<rparr>, \<lparr>role = ''assistant'', content = ''a1''\<rparr>] ''c2'') = 3"
  using contruct_prompt_appends_and_evicts [of
     "[\<lparr>role = ''system'', content = ''s''\<rparr>, \<lparr>role = ''assistant'', content = ''c1''\<rparr>,
      \<lparr>role = ''user'', content = ''q1''\<rparr>, \<lparr>role = ''assistant'', content = ''a1''\<rparr>]"
     "''c2''" "''q2''"]
  by (simp add: Let_def max_messages_to_keep_def)

lemma apply_op_head:
  "memory \<noteq> [] \<Longrightarrow> apply_op memory op \<noteq> [] \<and> hd (apply_op memory op) = hd memory"
  by (cases op; cases memory)
     (simp_all add: contruct_prompt_def append_answer_def del_1_4_def Let_def)

lemma run_ops_head:
  "memory \<noteq> [] \<Longrightarrow> run_ops memory ops \<noteq> [] \<and> hd (run_ops memory ops) = hd memory"
proof (induction ops arbitrary: memory)
  case Nil
  then show ?case by (simp add: run_ops_def)
next
  case (Cons op ops)
  from apply_op_head [OF Cons.prems, of op] Cons.IH [of "apply_op memory op"]
  show ?case by (simp add: run_ops_def)
qed

lemma length_contruct_prompt:
  "length (contruct_prompt query memory context) =
     (if max_messages_to_keep < length memory + 2 then length memory - 1 else length memory + 2)"
  by (auto simp: contruct_prompt_def del_1_4_def Let_def max_messages_to_keep_def)

text \<open>After whole iterations of the loop the memory has one entry or four.\<close>

lemma alternating_pairs_length:
  "alternating ops \<Longrightarrow> even (length ops) \<Longrightarrow> length memory = 1 \<or> length memory = 4 \<Longrightarrow>
   length (run_ops memory ops) = 1 \<or> length (run_ops memory ops) = 4"
proof (induction ops arbitrary: memory rule: alternating.induct)
  case (3 c q a ops)
  have "length (append_answer (contruct_prompt q memory c) a) = 4"
    using "3.prems"(3)
    by (auto simp: append_answer_def length_contruct_prompt max_messages_to_keep_def)
  with "3.IH" [of "append_answer (contruct_prompt q memory c) a"] "3.prems"
  show ?case by (simp add: run_ops_def)
qed (simp_all add: run_ops_def)

lemma alternating_snoc_turn:
  "alternating (ops @ [AppendTurn c q]) \<Longrightarrow> alternating ops \<and> even (length ops)"
  by (induction ops rule: alternating.induct) simp_all

lemma run_ops_snoc: "run_ops memory (ops @ [op]) = apply_op (run_ops memory ops) op"
  by (simp add: run_ops_def)

text \<open>
  Claim C8, as stated, bounds the length after an evicting \<open>contruct_prompt\<close> for every
  sequence of the two operations. Four answers appended in a row before a turn leave
  four entries after the eviction, one more than \<open>max_messages_to_keep\<close>.
\<close>

theorem memory_length_counterexample:
  "max_messages_to_keep
     < length (run_ops (initialize_memory ''s'')
         [AppendAnswer ''a1'', AppendAnswer ''a2'', AppendAnswer ''a3'', AppendAnswer ''a4'']) + 2 \<and>
   length (run_ops (initialize_memory ''s'')
     [AppendAnswer ''a1'', AppendAnswer ''a2'', AppendAnswer ''a3'', AppendAnswer ''a4'',
      AppendTurn ''c'' ''q'']) = 4 \<and>
   \<not> 4 \<le> max_messages_to_keep"
  by (simp add: run_ops_def initialize_memory_def contruct_prompt_def append_answer_def
        max_messages_to_keep_def del_1_4_def Let_def)

text \<open>
  Claim C8, amended. Starting from the initial memory, after every sequence of
  \<open>AppendTurn\<close> and \<open>AppendAnswer\<close> the memory is not empty and its position 0 is the
  system message, role and content unchanged. When the operations come in the order
  \<open>run_chatbot\<close> issues them (turn, answer, turn, answer, ...), the memory has at most
  \<open>max_messages_to_keep\<close> entries immediately after every turn that triggered the
  eviction.
\<close>

theorem memory_invariant:
  "run_ops (initialize_memory system_message) ops \<noteq> [] \<and>
   run_ops (initialize_memory system_message) ops ! 0
     = \<lparr>role = ''system'', content = system_message\<rparr> \<and>
   (alternating (ops @ [AppendTurn context query]) \<and>
    max_messages_to_keep < length (run_ops (initialize_memory system_message) ops) + 2 \<longrightarrow>
      length (run_ops (initialize_memory system_message) (ops @ [AppendTurn context query]))
        \<le> max_messages_to_keep)"
proof -
  let ?m = "run_ops (initialize_memory system_message) ops"
  have h: "?m \<noteq> [] \<and> hd ?m = hd (initialize_memory system_message)"
    by (rule run_ops_head) (simp add: initialize_memory_def)
  then have a: "?m \<noteq> []" by simp
  from h have "?m ! 0 = hd (initialize_memory system_message)"
    by (metis hd_conv_nth)
  then have b: "?m ! 0 = \<lparr>role = ''system'', content = system_message\<rparr>"
    by (simp add: initialize_memory_def)
  have c: "length (run_ops (initialize_memory system_message) (ops @ [AppendTurn context query]))
             \<le> max_messages_to_keep"
    if alt: "alternating (ops @ [AppendTurn context query])"
      and ev: "max_messages_to_keep < length ?m + 2"
  proof -
    from alternating_snoc_turn [OF alt] have "alternating ops" "even (length ops)" by simp_all
    then have "length ?m = 1 \<or> length ?m = 4"
      by (rule alternating_pairs_length) (simp add: initialize_memory_def)
    with ev have "length ?m = 4" by (auto simp: max_messages_to_keep_def)
    then show ?thesis
      by (simp add: run_ops_snoc length_contruct_prompt max_messages_to_keep_def)
  qed
  from a b c show ?thesis by blast
qed

text \<open>One full iteration, then the turn of the second: six entries, cut to three.\<close>

theorem memory_invariant_witness:
  "run_ops (initialize_memory ''s'') [AppendTurn ''c1'' ''q1'', AppendAnswer ''a1''] \<noteq> [] \<and>
   run_ops (initialize_memory ''s'') [AppendTurn ''c1'' ''q1'', AppendAnswer ''a1''] ! 0
     = \<lparr>role = ''system'', content = ''s''\<rparr> \<and>
   alternating ([AppendTurn ''c1'' ''q1'', AppendAnswer ''a1''] @ [AppendTurn ''c2'' ''q2'']) \<and>
   max_messages_to_keep
     < length (run_ops (initialize_memory ''s'') [AppendTurn ''c1'' ''q1'', AppendAnswer ''a1'']) + 2 \<and>
   length (run_ops (initialize_memory ''s'')
            ([AppendTurn ''c1'' ''q1'', AppendAnswer ''a1''] @ [AppendTurn ''c2'' ''q2'']))
     \<le> max_messages_to_keep"
proof -
  have alt: "alternating ([AppendTurn ''c1'' ''q1'', AppendAnswer ''a1''] @ [AppendTurn ''c2'' ''q2''])"
    by simp
  have ev: "max_messages_to_keep
     < length (run_ops (initialize_memory ''s'') [AppendTurn ''c1'' ''q1'', AppendAnswer ''a1'']) + 2"
    by (simp add: run_ops_def initialize_memory_def contruct_prompt_def append_answer_def
        max_messages_to_keep_def del_1_4_def Let_def)
  from memory_invariant [of "''s''" "[AppendTurn ''c1'' ''q1'', AppendAnswer ''a1'']" "''c2''" "''q2''"]
    alt ev
  show ?thesis by blast
qed

section \<open>Properties of the table splitter\<close>

lemma py_range_step:
  "0 < step \<Longrightarrow> i < stop \<Longrightarrow> py_range i stop step = i # py_range (i + step) stop step"
  by (subst py_range.simps) simp

lemma py_range_done: "\<not> i < stop \<Longrightarrow> py_range i stop step = []"
  by (subst py_range.simps) simp

lemma py_range_slices_concat:
  "0 < step \<Longrightarrow> concat (map (\<lambda>j. take step (drop j xs)) (py_range i (length xs) step)) = drop i xs"
proof (induction i "length xs" step rule: py_range.induct)
  case (1 i step)
  show ?case
  proof (cases "i < length xs")
    case True
    with 1 have ih: "concat (map (\<lambda>j. take step (drop j xs)) (py_range (i + step) (length xs) step))
                  = drop (i + step) xs" by simp
    have "drop (i + step) xs = drop step (drop i xs)"
      by (simp add: add.commute)
    with ih have "concat (map (\<lambda>j. take step (drop j xs)) (py_range i (length xs) step))
            = take step (drop i xs) @ drop step (drop i xs)"
      by (simp only: py_range_step [OF "1.prems" True] list.map concat.simps)
    then show ?thesis by (simp only: append_take_drop_id)
  next
    case False
    then show ?thesis by (simp add: py_range_done)
  qed
qed

lemma div_step_more: "0 < (step::nat) \<Longrightarrow> (d + step + (step - 1)) div step = Suc ((d + (step - 1)) div step)"
proof -
  assume "0 < step"
  have "d + step + (step - 1) = (d + (step - 1)) + step" by simp
  with \<open>0 < step\<close> show ?thesis by (simp only: div_add_self2)
qed

lemma div_step_last: "0 < (e::nat) \<Longrightarrow> e \<le> step \<Longrightarrow> (e + (step - 1)) div step = 1"
  by (rule div_nat_eqI) simp_all

lemma length_py_range:
  "0 < step \<Longrightarrow> length (py_range i stop step) = (stop - i + (step - 1)) div step"
proof (induction i stop step rule: py_range.induct)
  case (1 i stop step)
  show ?case
  proof (cases "i < stop")
    case True
    with 1 have ih: "length (py_range (i + step) stop step) = (stop - (i + step) + (step - 1)) div step"
      by simp
    show ?thesis
    proof (cases "i + step \<le> stop")
      case le: True
      define d where "d = stop - (i + step)"
      with le have s: "stop - i = d + step" by simp
      from ih have "length (py_range i stop step) = Suc ((d + (step - 1)) div step)"
        by (simp only: py_range_step [OF "1.prems" True] d_def list.size length_Cons)
      then show ?thesis by (simp only: s div_step_more [OF "1.prems"])
    next
      case gt: False
      define e where "e = stop - i"
      from gt True have e: "0 < e" "e \<le> step" by (simp_all add: e_def)
      from gt have "stop - (i + step) = 0" by simp
      then have a: "(stop - (i + step) + (step - 1)) div step = 0" using "1.prems" by simp
      from ih a have "length (py_range i stop step) = 1"
        by (simp add: py_range_step [OF "1.prems" True])
      then show ?thesis using div_step_last [OF e] by (simp add: e_def)
    qed
  next
    case False
    then show ?thesis using "1.prems" by (simp add: py_range_done)
  qed
qed

lemma ceiling_nat_div:
  assumes l: "0 < (l::nat)"
  shows "nat \<lceil>real r / real l\<rceil> = (r + (l - 1)) div l"
proof -
  define q where "q = (r + (l - 1)) div l"
  have "r + (l - 1) = q * l + (r + (l - 1)) mod l"
    by (simp add: q_def)
  moreover have "(r + (l - 1)) mod l < l" using l by simp
  ultimately have le: "r \<le> q * l" and lt: "q * l < r + l" using l by linarith+
  from le have "real r \<le> real (q * l)" by (simp only: of_nat_le_iff)
  then have a: "real r / real l \<le> real q" using l by (simp add: pos_divide_le_eq)
  from lt have "real (q * l) < real (r + l)" by (simp only: of_nat_less_iff)
  then have "(real q - 1) * real l < real r" by (simp add: algebra_simps)
  then have b: "real q - 1 < real r / real l" using l by (simp add: pos_less_divide_eq)
  have "\<lceil>real r / real l\<rceil> = int q"
    by (rule ceiling_unique) (use a b in simp_all)
  then show ?thesis by (simp add: q_def)
qed

text \<open>
  Claim C9. \<open>split_table\<close> on a table of \<open>R\<close> rows returns \<open>\<lceil>R / max_rows_per_table\<rceil>\<close>
  groups; every group carries the header of the table and at most
  \<open>max_rows_per_table\<close> rows; the row counts of the groups add up to \<open>R\<close>, and the
  groups' rows in order are the rows of the table. This holds for every \<open>R\<close>, so in
  particular where \<open>replace_table\<close> calls \<open>split_table\<close>, with \<open>R\<close> above the limit.
\<close>

theorem split_table_groups:
  "length (split_table table_df)
     = nat \<lceil>real (length (rows table_df)) / real max_rows_per_table\<rceil> \<and>
   (\<forall>group \<in> set (split_table table_df).
      header group = header table_df \<and> length (rows group) \<le> max_rows_per_table) \<and>
   sum_list (map (\<lambda>group. length (rows group)) (split_table table_df)) = length (rows table_df) \<and>
   concat (map rows (split_table table_df)) = rows table_df"
proof -
  have pos: "0 < max_rows_per_table" by (simp add: max_rows_per_table_def)
  let ?chunks = "map (\<lambda>i. take max_rows_per_table (drop i (rows table_df)))
                   (py_range 0 (length (rows table_df)) max_rows_per_table)"
  have st: "split_table table_df = map (\<lambda>chunk. \<lparr>header = header table_df, rows = chunk\<rparr>) ?chunks"
    by (simp add: split_table_def Let_def)
  have rws: "map rows (split_table table_df) = ?chunks"
    by (simp add: st comp_def)
  have n: "length (split_table table_df)
     = nat \<lceil>real (length (rows table_df)) / real max_rows_per_table\<rceil>"
    by (simp add: st length_py_range [OF pos] ceiling_nat_div [OF pos])
  have g: "\<forall>group \<in> set (split_table table_df).
      header group = header table_df \<and> length (rows group) \<le> max_rows_per_table"
    by (auto simp: st)
  have c: "concat (map rows (split_table table_df)) = rows table_df"
    using py_range_slices_concat [OF pos, of "rows table_df" 0] by (simp add: rws)
  have "sum_list (map (\<lambda>group. length (rows group)) (split_table table_df))
          = sum_list (map length (map rows (split_table table_df)))"
    by (simp add: comp_def)
  also have "\<dots> = length (concat (map rows (split_table table_df)))"
    by (simp only: length_concat)
  finally have s: "sum_list (map (\<lambda>group. length (rows group)) (split_table table_df))
          = length (rows table_df)"
    by (simp only: c)
  from n g s c show ?thesis by blast
qed

text \<open>A table of 31 rows: two groups, of 30 rows and of 1.\<close>

theorem split_table_groups_witness:
  "length (split_table \<lparr>header = [''h''], rows = replicate 31 [''r'']\<rparr>) = 2 \<and>
   header (hd (split_table \<lparr>header = [''h''], rows = replicate 31 [''r'']\<rparr>)) = [''h''] \<and>
   length (rows (hd (split_table \<lparr>header = [''h''], rows = replicate 31 [''r'']\<rparr>)))
     \<le> max_rows_per_table \<and>
   sum_list (map (\<lambda>group. length (rows group))
               (split_table \<lparr>header = [''h''], rows = replicate 31 [''r'']\<rparr>)) = 31 \<and>
   concat (map rows (split_table \<lparr>header = [''h''], rows = replicate 31 [''r'']\<rparr>))
     = replicate 31 [''r'']"
proof -
  let ?t = "\<lparr>header = [''h''], rows = replicate 31 [''r'']\<rparr>"
  note th = split_table_groups [of ?t]
  from th have n: "length (split_table ?t) = 2"
    by (simp add: max_rows_per_table_def)
  then have "hd (split_table ?t) \<in> set (split_table ?t)"
    by (intro hd_in_set) auto
  with th have "header (hd (split_table ?t)) = [''h'']"
    and "length (rows (hd (split_table ?t))) \<le> max_rows_per_table"
    by auto
  moreover from th have "sum_list (map (\<lambda>group. length (rows group)) (split_table ?t)) = 31"
    and "concat (map rows (split_table ?t)) = replicate 31 [''r'']"
    by simp_all
  ultimately show ?thesis using n by blast
qed

section \<open>Properties of the context assembler\<close>

lemma sint_add_in_range:
  fixes a b :: "64 word"
  assumes "- (2 ^ 63) \<le> sint a + sint b" and "sint a + sint b < 2 ^ 63"
  shows "sint (a + b) = sint a + sint b"
  using assms by (simp add: sint_word_add signed_take_bit_int_eq_self)

lemma get_context_loop_prefix:
  "get_context_loop pages chosen s = (chosen', s') \<Longrightarrow>
   \<exists>k \<le> length pages.
     chosen' = chosen @ map page_content (take k pages) \<and>
     s' = s + sum_list (map (\<lambda>p. num_tokens p + 4) (take k pages)) \<and>
     (0 < k \<longrightarrow> sint (s' - 4) \<le> max_tokens_per_context) \<and>
     (k < length pages \<longrightarrow> max_tokens_per_context < sint (s' + num_tokens (pages ! k)))"
proof (induction pages arbitrary: chosen s)
  case Nil
  then show ?case by simp
next
  case (Cons page pages)
  show ?case
  proof (cases "sint (s + num_tokens page) > max_tokens_per_context")
    case True
    with Cons.prems have "chosen' = chosen" "s' = s" by simp_all
    with True have "chosen' = chosen @ map page_content (take 0 (page # pages)) \<and>
        s' = s + sum_list (map (\<lambda>p. num_tokens p + 4) (take 0 (page # pages))) \<and>
        (0 < (0::nat) \<longrightarrow> sint (s' - 4) \<le> max_tokens_per_context) \<and>
        (0 < length (page # pages) \<longrightarrow>
           max_tokens_per_context < sint (s' + num_tokens ((page # pages) ! 0)))"
      by simp
    then show ?thesis by blast
  next
    case False
    with Cons.prems have
      "get_context_loop pages (chosen @ [page_content page]) (s + num_tokens page + 4) = (chosen', s')"
      by simp
    from Cons.IH [OF this] obtain k where k: "k \<le> length pages"
      "chosen' = (chosen @ [page_content page]) @ map page_content (take k pages)"
      "s' = (s + num_tokens page + 4) + sum_list (map (\<lambda>p. num_tokens p + 4) (take k pages))"
      "0 < k \<longrightarrow> sint (s' - 4) \<le> max_tokens_per_context"
      "k < length pages \<longrightarrow> max_tokens_per_context < sint (s' + num_tokens (pages ! k))"
      by blast
    have first: "k = 0 \<Longrightarrow> sint (s' - 4) \<le> max_tokens_per_context"
      using k(3) False by simp
    have "Suc k \<le> length (page # pages) \<and>
        chosen' = chosen @ map page_content (take (Suc k) (page # pages)) \<and>
        s' = s + sum_list (map (\<lambda>p. num_tokens p + 4) (take (Suc k) (page # pages))) \<and>
        (0 < Suc k \<longrightarrow> sint (s' - 4) \<le> max_tokens_per_context) \<and>
        (Suc k < length (page # pages) \<longrightarrow>
           max_tokens_per_context < sint (s' + num_tokens ((page # pages) ! Suc k)))"
      using k first by (cases "k = 0") (simp_all add: add.assoc)
    then show ?thesis by blast
  qed
qed

lemma sum_list_plus4:
  "sum_list (map (\<lambda>p. num_tokens p + 4) ps)
     = sum_list (map num_tokens ps) + 4 * of_nat (length ps)"
  by (induction ps) (simp_all add: algebra_simps)

text \<open>
  While every token count lies between 0 and \<open>2^63 - 3495\<close>, the running total stays
  between 0 and 3494 and no addition wraps.
\<close>

lemma get_context_loop_exact:
  assumes range: "\<forall>p \<in> set pages. 0 \<le> sint (num_tokens p) \<and> sint (num_tokens p) \<le> 2 ^ 63 - 3495"
    and s: "0 \<le> sint s" "sint s \<le> 3494"
    and run: "get_context_loop pages chosen s = (chosen', s')"
  shows "sint s' = sint s + sum_list (map (\<lambda>p. sint (num_tokens p) + 4)
                                (take (length chosen' - length chosen) pages))"
  using assms
proof (induction pages arbitrary: chosen s)
  case Nil
  then show ?case by simp
next
  case (Cons page pages)
  let ?t = "num_tokens page"
  from Cons.prems(1) have t: "0 \<le> sint ?t" "sint ?t \<le> 2 ^ 63 - 3495" by simp_all
  with Cons.prems(2,3) have st: "sint (s + ?t) = sint s + sint ?t"
    by (intro sint_add_in_range) simp_all
  show ?case
  proof (cases "sint (s + ?t) > max_tokens_per_context")
    case True
    with Cons.prems(4) show ?thesis by simp
  next
    case False
    then have le: "sint s + sint ?t \<le> 3490"
      by (simp add: st max_tokens_per_context_def)
    have "sint (s + ?t + 4) = sint (s + ?t) + sint (4 :: 64 word)"
      using le t Cons.prems(2) by (intro sint_add_in_range) (simp_all add: st)
    then have s4: "sint (s + ?t + 4) = sint s + sint ?t + 4" by (simp add: st)
    from False Cons.prems(4) have r:
      "get_context_loop pages (chosen @ [page_content page]) (s + ?t + 4) = (chosen', s')"
      by simp
    from get_context_loop_prefix [OF r] obtain k where
      "chosen' = (chosen @ [page_content page]) @ map page_content (take k pages)"
      by blast
    then have len: "length chosen' - length chosen
                      = Suc (length chosen' - length (chosen @ [page_content page]))"
      by simp
    from Cons.prems(1) have "\<forall>p \<in> set pages.
        0 \<le> sint (num_tokens p) \<and> sint (num_tokens p) \<le> 2 ^ 63 - 3495" by simp
    from Cons.IH [OF this _ _ r] le t Cons.prems(2)
    have "sint s' = sint (s + ?t + 4) + sum_list (map (\<lambda>p. sint (num_tokens p) + 4)
            (take (length chosen' - length (chosen @ [page_content page])) pages))"
      by (simp add: s4)
    then show ?thesis by (simp only: len s4 take_Suc_Cons list.map sum_list.Cons)
  qed
qed

lemma sint_minus4:
  fixes s :: "64 word"
  assumes "4 \<le> sint s"
  shows "sint (s - 4) = sint s - 4"
proof -
  have "sint s < 2 ^ 63" using sint_lt [of s] by simp
  with assms have "sint (s + (- 4)) = sint s + sint (- 4 :: 64 word)"
    by (intro sint_add_in_range) simp_all
  then show ?thesis by simp
qed

lemma sum_list_sint_plus4:
  "sum_list (map (\<lambda>p. sint (num_tokens p) + 4) ps)
     = sum_list (map (\<lambda>p. sint (num_tokens p)) ps) + 4 * int (length ps)"
  by (induction ps) simp_all

lemma sum_list_nonneg_sint:
  "\<forall>p \<in> set ps. 0 \<le> sint (num_tokens p) \<Longrightarrow> 0 \<le> sum_list (map (\<lambda>p. sint (num_tokens p)) ps)"
  by (induction ps) simp_all

text \<open>
  Claim C5, as stated, bounds the sum over the selected rows of \<open>num_tokens + 4\<close> by
  \<open>max_tokens_per_context\<close>. The test before a row is added compares
  \<open>sum_tokens_chosen + page.num_tokens\<close> with the limit, without the separator of
  the row itself: three rows of 1200, 1200 and 1082 tokens are all selected, and
  their sum with the separators is 3494. The sum is a 64-bit integer as well: after
  a row of 0 tokens the total is 4, and with a row of \<open>2^63 - 1\<close> tokens it wraps to a
  negative value, so that row passes the test and is selected too.
\<close>

theorem get_context_budget_counterexample:
  "get_context_loop
     [\<lparr>space = ''SYS'', title = ''t1'', page_content = ''c1'', link = ''l1'', num_tokens = 1200\<rparr>,
      \<lparr>space = ''SYS'', title = ''t2'', page_content = ''c2'', link = ''l2'', num_tokens = 1200\<rparr>,
      \<lparr>space = ''SYS'', title = ''t3'', page_content = ''c3'', link = ''l3'', num_tokens = 1082\<rparr>] [] 0
     = ([''c1'', ''c2'', ''c3''], 3494) \<and>
   \<not> (1200 + 4) + (1200 + 4) + (1082 + 4) \<le> max_tokens_per_context \<and>
   fst (get_context_loop
     [\<lparr>space = ''SYS'', title = ''t1'', page_content = ''c1'', link = ''l1'', num_tokens = 0\<rparr>,
      \<lparr>space = ''SYS'', title = ''t2'', page_content = ''c2'', link = ''l2'',
         num_tokens = 9223372036854775807\<rparr>] [] 0)
     = [''c1'', ''c2''] \<and>
   sint (9223372036854775807 :: 64 word) = 9223372036854775807 \<and>
   \<not> 0 + 9223372036854775807 \<le> max_tokens_per_context"
  by (simp add: max_tokens_per_context_def)

text \<open>
  Claim C5, amended. The selected contents are those of a prefix of the ranked rows,
  and \<open>sum_tokens_chosen\<close> is the 64-bit sum of \<open>num_tokens + 4\<close> over that prefix. When
  the selection is not empty, the 64-bit sum of the token counts of the selected rows
  plus the separator overhead of all of them but the last, read as a signed value,
  stays within \<open>max_tokens_per_context\<close>; the first row left out, if there is one, is
  a row that failed the test. When every token count lies between 0 and
  \<open>2^63 - 3495\<close> no addition wraps, and the same bound holds for the sum of the token
  counts as integers.
\<close>

theorem get_context_selection:
  "case get_context_loop pages_df [] 0 of
     (chosen_pages_content, sum_tokens_chosen) \<Rightarrow>
       let k = length chosen_pages_content in
         k \<le> length pages_df \<and>
         chosen_pages_content = map page_content (take k pages_df) \<and>
         sum_tokens_chosen = sum_list (map (\<lambda>p. num_tokens p + 4) (take k pages_df)) \<and>
         (0 < k \<longrightarrow>
            sint (sum_list (map num_tokens (take k pages_df)) + 4 * (of_nat k - 1))
              \<le> max_tokens_per_context) \<and>
         (k < length pages_df \<longrightarrow>
            max_tokens_per_context < sint (sum_tokens_chosen + num_tokens (pages_df ! k))) \<and>
         ((\<forall>p \<in> set pages_df.
             0 \<le> sint (num_tokens p) \<and> sint (num_tokens p) \<le> 2 ^ 63 - 3495) \<and> 0 < k \<longrightarrow>
            sum_list (map (\<lambda>p. sint (num_tokens p)) (take k pages_df)) + 4 * (int k - 1)
              \<le> max_tokens_per_context)"
proof -
  obtain chosen total where r: "get_context_loop pages_df [] 0 = (chosen, total)"
    by (cases "get_context_loop pages_df [] 0")
  from get_context_loop_prefix [OF r] obtain k where k: "k \<le> length pages_df"
      "chosen = map page_content (take k pages_df)"
      "total = sum_list (map (\<lambda>p. num_tokens p + 4) (take k pages_df))"
      "0 < k \<longrightarrow> sint (total - 4) \<le> max_tokens_per_context"
      "k < length pages_df \<longrightarrow> max_tokens_per_context < sint (total + num_tokens (pages_df ! k))"
    by auto
  from k(1,2) have len: "length chosen = k" by simp
  have tot: "total = sum_list (map num_tokens (take k pages_df)) + 4 * of_nat k"
    using k(1) by (simp add: k(3) sum_list_plus4)
  then have "total - 4 = sum_list (map num_tokens (take k pages_df)) + 4 * (of_nat k - 1)"
    by (simp add: algebra_simps)
  with k(4) have wrapped: "0 < k \<longrightarrow>
      sint (sum_list (map num_tokens (take k pages_df)) + 4 * (of_nat k - 1))
        \<le> max_tokens_per_context"
    by simp
  have exact: "sum_list (map (\<lambda>p. sint (num_tokens p)) (take k pages_df)) + 4 * (int k - 1)
              \<le> max_tokens_per_context"
    if range: "\<forall>p \<in> set pages_df.
             0 \<le> sint (num_tokens p) \<and> sint (num_tokens p) \<le> 2 ^ 63 - 3495"
      and pos: "0 < k"
  proof -
    from get_context_loop_exact [OF range _ _ r] len k(1)
    have e: "sint total = sum_list (map (\<lambda>p. sint (num_tokens p)) (take k pages_df)) + 4 * int k"
      by (simp add: sum_list_sint_plus4)
    from range have "\<forall>p \<in> set (take k pages_df). 0 \<le> sint (num_tokens p)"
      by (meson in_set_takeD)
    from sum_list_nonneg_sint [OF this] e pos have "4 \<le> sint total" by simp
    from sint_minus4 [OF this] k(4) pos e show ?thesis by (simp add: algebra_simps)
  qed
  from k len wrapped exact show ?thesis by (simp add: r Let_def)
qed

text \<open>
  Rows of 1200, 1200 and 1090 tokens: two are selected, the third does not fit.
\<close>

theorem get_context_selection_witness:
  "get_context_loop
     [\<lparr>space = ''SYS'', title = ''t1'', page_content = ''c1'', link = ''l1'', num_tokens = 1200\<rparr>,
      \<lparr>space = ''SYS'', title = ''t2'', page_content = ''c2'', link = ''l2'', num_tokens = 1200\<rparr>,
      \<lparr>space = ''SYS'', title = ''t3'', page_content = ''c3'', link = ''l3'', num_tokens = 1090\<rparr>] [] 0
     = ([''c1'', ''c2''], 2408) \<and>
   sint (1090 :: 64 word) \<le> 2 ^ 63 - 3495 \<and>
   sint ((1200 + 1200) + 4 * (2 - 1) :: 64 word) \<le> max_tokens_per_context \<and>
   max_tokens_per_context < sint (2408 + 1090 :: 64 word) \<and>
   (1200 + 1200) + 4 * (2 - 1) \<le> max_tokens_per_context"
  using get_context_selection [of
     "[\<lparr>space = ''SYS'', title = ''t1'', page_content = ''c1'', link = ''l1'', num_tokens = 1200\<rparr>,
      \<lparr>space = ''SYS'', title = ''t2'', page_content = ''c2'', link = ''l2'', num_tokens = 1200\<rparr>,
      \<lparr>space = ''SYS'', title = ''t3'', page_content = ''c3'', link = ''l3'', num_tokens = 1090\<rparr>]"]
  by (simp add: max_tokens_per_context_def)

end
